theory Spec2Isabelle
  imports Main "HOL-Library.Multiset" "HOL-Library.Char_ord" "HOL-Library.List_Lexorder"
    "HOL-Library.Product_Lexorder"
begin

section \<open>Strings and character classes\<close>

text \<open>
  A JavaScript string is a sequence of code units; it is modelled as a \<^typ>\<open>string\<close>
  (a list of \<^typ>\<open>char\<close>), one \<^typ>\<open>char\<close> per code unit. The four characters the
  two regular expressions name literally are given names.
\<close>

definition backslash :: char where
  "backslash = CHR 0x5C"

definition lbrace :: char where
  "lbrace = CHR 0x7B"

definition rbrace :: char where
  "rbrace = CHR 0x7D"

definition colon :: char where
  "colon = CHR 0x3A"

text \<open>The class \<^verbatim>\<open>[a-zA-Z_]\<close>, by code unit ranges.\<close>

definition name_start :: "char \<Rightarrow> bool" where
  "name_start c =
     (let n = (of_char c :: nat)
      in (97 \<le> n \<and> n \<le> 122) \<or> (65 \<le> n \<and> n \<le> 90) \<or> n = 95)"

text \<open>The class \<^verbatim>\<open>[a-zA-Z0-9_-]\<close>.\<close>

definition name_char :: "char \<Rightarrow> bool" where
  "name_char c =
     (let n = (of_char c :: nat)
      in (97 \<le> n \<and> n \<le> 122) \<or> (65 \<le> n \<and> n \<le> 90) \<or> (48 \<le> n \<and> n \<le> 57)
         \<or> n = 95 \<or> n = 45)"

section \<open>The placeholder engine (utils/placeholders)\<close>

subsection \<open>Data\<close>

text \<open>The interface \<^verbatim>\<open>Placeholder\<close> of storage/types.ts; \<^verbatim>\<open>undefined\<close> is \<open>None\<close>.\<close>

record placeholder =
  name :: string
  defaultValue :: "string option"
  required :: bool
  match :: string

text \<open>
  A \<^verbatim>\<open>Record<string, string>\<close> is an ordinary object: its own properties, which hold
  strings, and behind them the properties it inherits from \<^verbatim>\<open>Object.prototype\<close>. The
  own properties are a map (a missing key is \<open>None\<close>).
\<close>

type_synonym values_record = "string \<rightharpoonup> string"

text \<open>
  What reading a property can give: a string (an own property), one of the built-in
  functions of \<^verbatim>\<open>Object.prototype\<close> (named here by the property it is found under), or
  \<^verbatim>\<open>Object.prototype\<close> itself, which the inherited accessor \<^verbatim>\<open>__proto__\<close> returns.
\<close>

datatype js_value = JString string | JFunction string | JObjectPrototype

definition prototype_functions :: "string list" where
  "prototype_functions =
     [''constructor'', ''hasOwnProperty'', ''isPrototypeOf'', ''propertyIsEnumerable'',
      ''toLocaleString'', ''toString'', ''valueOf'', ''__defineGetter__'',
      ''__defineSetter__'', ''__lookupGetter__'', ''__lookupSetter__'']"

definition inherited :: "string \<Rightarrow> js_value option" where
  "inherited n =
     (if n = ''__proto__'' then Some JObjectPrototype
      else if n \<in> set prototype_functions then Some (JFunction n)
      else None)"

text \<open>\<^verbatim>\<open>values[name]\<close>: the own property, else the inherited one, else \<^verbatim>\<open>undefined\<close> (\<open>None\<close>).\<close>

definition get_property :: "values_record \<Rightarrow> string \<Rightarrow> js_value option" where
  "get_property vals n =
     (case vals n of
        Some v \<Rightarrow> Some (JString v)
      | None \<Rightarrow> inherited n)"

text \<open>\<^verbatim>\<open>name in values\<close>: the object has the property, own or inherited.\<close>

definition has_property :: "values_record \<Rightarrow> string \<Rightarrow> bool" where
  "has_property vals n = (case get_property vals n of None \<Rightarrow> False | Some v \<Rightarrow> True)"

text \<open>
  \<^verbatim>\<open>values[name] = v\<close> with a string \<open>v\<close>: an own property is written or created, except
  that for the name \<^verbatim>\<open>__proto__\<close>, when the object has no own property of that name, the
  inherited setter runs, which ignores a value that is not an object: nothing is stored.
\<close>

definition set_property :: "values_record \<Rightarrow> string \<Rightarrow> string \<Rightarrow> values_record" where
  "set_property vals n v =
     (if vals n = None \<and> n = ''__proto__'' then vals else vals(n \<mapsto> v))"

text \<open>
  The conversion to a string that \<^verbatim>\<open>replace\<close> applies to what its function returns.
  The text of a built-in function is left to the implementation by the language, so it
  is a parameter \<open>native_text\<close>; \<^verbatim>\<open>Object.prototype\<close> converts to \<^verbatim>\<open>[object Object]\<close>.
\<close>

fun to_string :: "(string \<Rightarrow> string) \<Rightarrow> js_value \<Rightarrow> string" where
  "to_string native_text (JString s) = s"
| "to_string native_text (JFunction n) = native_text n"
| "to_string native_text JObjectPrototype = ''[object Object]''"

text \<open>
  The result array of a regular expression match: the matched text (\<^verbatim>\<open>match[0]\<close>),
  capture group 1 and capture group 2 (\<open>None\<close> when the group did not take part).
\<close>

type_synonym groups = "string \<times> string \<times> string option"

subsection \<open>PLACEHOLDER\_REGEX\<close>

text \<open>
  \<^verbatim>\<open>/(?<!\\)\{([a-zA-Z_][a-zA-Z0-9_-]*)(?::([^}]*))?\}/g\<close> tried at one position.
  \<open>prev\<close> is the code unit before the position (\<open>None\<close> at the start of the string),
  which the lookbehind \<^verbatim>\<open>(?<!\\)\<close> reads. The quantifiers are greedy: the name takes
  every name character that follows, the default every character up to the first
  closing brace. Giving characters back never helps: a shorter name is followed by a
  name character, which is neither a colon nor a closing brace, and a shorter default is
  followed by a character that is not a closing brace.
\<close>

fun match_at :: "char option \<Rightarrow> string \<Rightarrow> groups option" where
  "match_at prev (b # c # cs) =
     (if prev = Some backslash then None
      else if b \<noteq> lbrace then None
      else if \<not> name_start c then None
      else
        (let nm = c # takeWhile name_char cs in
         case dropWhile name_char cs of
           [] \<Rightarrow> None
         | x # r \<Rightarrow>
             if x = colon then
               (let d = takeWhile (\<lambda>y. y \<noteq> rbrace) r in
                case dropWhile (\<lambda>y. y \<noteq> rbrace) r of
                  [] \<Rightarrow> None
                | _ # _ \<Rightarrow> Some (lbrace # nm @ colon # d @ [rbrace], nm, Some d))
             else if x = rbrace then Some (lbrace # nm @ [rbrace], nm, None)
             else None))"
| "match_at prev _ = None"

text \<open>
  The search of \<^verbatim>\<open>exec\<close>: the first position at or after the start where the
  expression matches. \<open>i\<close> is the index of the head of the remaining text.
\<close>

fun search_from :: "char option \<Rightarrow> string \<Rightarrow> nat \<Rightarrow> (groups \<times> nat) option" where
  "search_from prev [] i = None"
| "search_from prev (c # cs) i =
     (case match_at prev (c # cs) of
        Some g \<Rightarrow> Some (g, i)
      | None \<Rightarrow> search_from (Some c) cs (Suc i))"

text \<open>
  \<^verbatim>\<open>PLACEHOLDER_REGEX.exec(s)\<close> for the global expression, whose only state is
  \<^verbatim>\<open>lastIndex\<close>: the search starts there; a match (with its index) moves
  \<^verbatim>\<open>lastIndex\<close> to the end of the matched text, a failure resets it to 0.
\<close>

definition regex_exec :: "nat \<Rightarrow> string \<Rightarrow> (groups \<times> nat) option \<times> nat" where
  "regex_exec lastIndex s =
     (if length s < lastIndex then (None, 0)
      else
        (case search_from (if lastIndex = 0 then None else Some (s ! (lastIndex - 1)))
                (drop lastIndex s) lastIndex of
           None \<Rightarrow> (None, 0)
         | Some (g, i) \<Rightarrow> (Some (g, i), i + length (fst g))))"

subsection \<open>What a match at one position looks like\<close>

lemma match_at_SomeD:
  assumes "match_at prev s = Some g"
  shows "\<exists>c nm d r. prev \<noteq> Some backslash \<and> name_start c \<and> (\<forall>x\<in>set nm. name_char x) \<and>
           ((g = (lbrace # c # nm @ [rbrace], c # nm, None) \<and> s = lbrace # c # nm @ rbrace # r) \<or>
            (rbrace \<notin> set d \<and> g = (lbrace # c # nm @ colon # d @ [rbrace], c # nm, Some d)
               \<and> s = lbrace # c # nm @ colon # d @ rbrace # r))"
proof (cases "(prev, s)" rule: match_at.cases)
  case (1 prev' b c cs)
  note m = assms
  define nm where "nm = takeWhile name_char cs"
  define rest where "rest = dropWhile name_char cs"
  have cs: "cs = nm @ rest" by (simp add: nm_def rest_def)
  have nmc: "\<forall>x\<in>set nm. name_char x" unfolding nm_def by (auto dest: set_takeWhileD)
  from m 1 have p: "prev \<noteq> Some backslash" and b: "b = lbrace" and c: "name_start c"
    by (auto split: if_splits)
  from m 1 p b c have m': "(case rest of [] \<Rightarrow> None
         | x # r \<Rightarrow>
             if x = colon then
               (let d = takeWhile (\<lambda>y. y \<noteq> rbrace) r in
                case dropWhile (\<lambda>y. y \<noteq> rbrace) r of
                  [] \<Rightarrow> None
                | _ # _ \<Rightarrow> Some (lbrace # (c # nm) @ colon # d @ [rbrace], c # nm, Some d))
             else if x = rbrace then Some (lbrace # (c # nm) @ [rbrace], c # nm, None)
             else None) = Some g"
    unfolding nm_def rest_def by (simp add: Let_def)
  show ?thesis
  proof (cases rest)
    case Nil
    with m' show ?thesis by simp
  next
    case (Cons x r)
    define d where "d = takeWhile (\<lambda>y. y \<noteq> rbrace) r"
    define r2 where "r2 = dropWhile (\<lambda>y. y \<noteq> rbrace) r"
    have r: "r = d @ r2" by (simp add: d_def r2_def)
    have dc: "rbrace \<notin> set d" unfolding d_def by (auto dest: set_takeWhileD)
    show ?thesis
    proof (cases "x = colon")
      case True
      with m' Cons have m2: "(case r2 of [] \<Rightarrow> None
                | _ # _ \<Rightarrow> Some (lbrace # (c # nm) @ colon # d @ [rbrace], c # nm, Some d)) = Some g"
        unfolding d_def r2_def by (simp add: Let_def)
      show ?thesis
      proof (cases r2)
        case Nil
        with m2 show ?thesis by simp
      next
        case (Cons y r')
        have "y = rbrace"
          using hd_dropWhile [of "\<lambda>y. y \<noteq> rbrace" r] Cons unfolding r2_def by auto
        with Cons m2 1 b cs r \<open>rest = x # r\<close> True p c nmc dc show ?thesis
          by auto
      qed
    next
      case False
      with m' Cons 1 b cs p c nmc show ?thesis
        by (auto split: if_splits)
    qed
  qed
qed (use assms in simp_all)

lemma takeWhile_upto: "a \<notin> set xs \<Longrightarrow> takeWhile (\<lambda>y. y \<noteq> a) (xs @ a # r) = xs"
  by (induction xs) auto

lemma dropWhile_upto: "a \<notin> set xs \<Longrightarrow> dropWhile (\<lambda>y. y \<noteq> a) (xs @ a # r) = a # r"
  by (induction xs) auto

lemma match_at_default:
  assumes "prev \<noteq> Some backslash" "name_start c" "\<forall>x\<in>set nm. name_char x" "rbrace \<notin> set d"
  shows "match_at prev (lbrace # c # nm @ colon # d @ rbrace # r) =
           Some (lbrace # c # nm @ colon # d @ [rbrace], c # nm, Some d)"
proof -
  have nc: "\<not> name_char colon" by (simp add: name_char_def colon_def)
  have tw: "takeWhile name_char (nm @ colon # d @ rbrace # r) = nm"
    using assms(3) nc by (simp add: takeWhile_append2)
  have dw: "dropWhile name_char (nm @ colon # d @ rbrace # r) = colon # d @ rbrace # r"
    using assms(3) nc by (simp add: dropWhile_append2)
  have tw2: "takeWhile (\<lambda>y. y \<noteq> rbrace) (d @ rbrace # r) = d"
    using assms(4) by (rule takeWhile_upto)
  have dw2: "dropWhile (\<lambda>y. y \<noteq> rbrace) (d @ rbrace # r) = rbrace # r"
    using assms(4) by (rule dropWhile_upto)
  show ?thesis using assms(1,2) by (simp add: tw dw tw2 dw2 del: dropWhile_eq_Nil_conv)
qed

lemma match_at_plain:
  assumes "prev \<noteq> Some backslash" "name_start c" "\<forall>x\<in>set nm. name_char x"
  shows "match_at prev (lbrace # c # nm @ rbrace # r) = Some (lbrace # c # nm @ [rbrace], c # nm, None)"
proof -
  have nc: "\<not> name_char rbrace" by (simp add: name_char_def rbrace_def)
  have ne: "rbrace \<noteq> colon" by (simp add: rbrace_def colon_def)
  have tw: "takeWhile name_char (nm @ rbrace # r) = nm"
    using assms(3) nc by (simp add: takeWhile_append2)
  have dw: "dropWhile name_char (nm @ rbrace # r) = rbrace # r"
    using assms(3) nc by (simp add: dropWhile_append2)
  show ?thesis using assms(1,2) ne by (simp add: tw dw del: dropWhile_eq_Nil_conv)
qed

lemma match_at_prefix:
  assumes "match_at prev s = Some g"
  shows "fst g \<noteq> [] \<and> length (fst g) \<le> length s \<and> take (length (fst g)) s = fst g
         \<and> last (fst g) = rbrace"
  using match_at_SomeD [OF assms] by auto

lemma search_from_bounds:
  "search_from prev xs i0 = Some (g, i) \<Longrightarrow> i0 \<le> i \<and> i + length (fst g) \<le> i0 + length xs \<and> 0 < length (fst g)"
proof (induction xs arbitrary: prev i0)
  case Nil
  then show ?case by simp
next
  case (Cons c cs)
  show ?case
  proof (cases "match_at prev (c # cs)")
    case None
    with Cons.prems have "search_from (Some c) cs (Suc i0) = Some (g, i)" by simp
    from Cons.IH [OF this] show ?thesis by simp
  next
    case (Some h)
    with Cons.prems have "h = g" "i = i0" by simp_all
    with Some match_at_prefix [of prev "c # cs" g] show ?thesis by simp
  qed
qed

lemma regex_exec_advances:
  assumes "regex_exec k s = (Some m, li)"
  shows "k < li \<and> li \<le> length s"
proof -
  obtain g i where m: "m = (g, i)" by (cases m)
  from assms have k: "k \<le> length s"
    by (auto simp: regex_exec_def split: if_splits)
  with assms m have sf: "search_from (if k = 0 then None else Some (s ! (k - 1))) (drop k s) k = Some (g, i)"
    and li: "li = i + length (fst g)"
    by (auto simp: regex_exec_def split: option.splits)
  from search_from_bounds [OF sf]
  have "k \<le> i" and "i + length (fst g) \<le> k + (length s - k)" and "0 < length (fst g)"
    by simp_all
  with k li show ?thesis by linarith
qed

subsection \<open>parsePlaceholders and hasPlaceholders\<close>

text \<open>
  The \<^verbatim>\<open>while ((match = PLACEHOLDER_REGEX.exec(command)) !== null)\<close> loop of
  \<^verbatim>\<open>parsePlaceholders\<close>. The expression is a module-level object, so its
  \<^verbatim>\<open>lastIndex\<close> is passed in and returned; the function does not reset it on entry.
\<close>

function parse_loop ::
  "string \<Rightarrow> nat \<Rightarrow> string set \<Rightarrow> placeholder list \<Rightarrow> placeholder list \<times> nat" where
  "parse_loop command lastIndex seen placeholders =
     (case regex_exec lastIndex command of
        (None, li) \<Rightarrow> (placeholders, li)
      | (Some ((fullMatch, nm, dflt), i), li) \<Rightarrow>
          if nm \<in> seen then parse_loop command li seen placeholders
          else parse_loop command li (insert nm seen)
                 (placeholders @
                    [\<lparr>name = nm, defaultValue = dflt, required = (dflt = None),
                      match = fullMatch\<rparr>]))"
  by pat_completeness auto
termination
proof (relation "measure (\<lambda>(command, lastIndex, seen, placeholders). Suc (length command) - lastIndex)")
  show "wf (measure (\<lambda>(command, lastIndex, seen, placeholders). Suc (length command) - lastIndex))"
    by simp
next
  fix command :: string and lastIndex :: nat and seen :: "string set"
    and placeholders :: "placeholder list" and x1 x2 x2a x1a x2b x1b x2c x1c x2d
  assume "(x1, x2) = regex_exec lastIndex command" "x1 = Some x2a"
  then have "regex_exec lastIndex command = (Some x2a, x2)" by simp
  from regex_exec_advances [OF this]
  show "((command, x2, seen, placeholders), command, lastIndex, seen, placeholders)
          \<in> measure (\<lambda>(command, lastIndex, seen, placeholders). Suc (length command) - lastIndex)"
    by auto
next
  fix command :: string and lastIndex :: nat and seen :: "string set"
    and placeholders :: "placeholder list" and x1 x2 x2a x1a x2b x1b x2c x1c x2d
  assume "(x1, x2) = regex_exec lastIndex command" "x1 = Some x2a"
  then have "regex_exec lastIndex command = (Some x2a, x2)" by simp
  from regex_exec_advances [OF this]
  show "((command, x2, insert x1c seen,
           placeholders @ [\<lparr>name = x1c, defaultValue = x2d, required = x2d = None, match = x1b\<rparr>]),
          command, lastIndex, seen, placeholders)
          \<in> measure (\<lambda>(command, lastIndex, seen, placeholders). Suc (length command) - lastIndex)"
    by auto
qed

text \<open>\<^verbatim>\<open>parsePlaceholders(command)\<close>, entered with the expression's current \<^verbatim>\<open>lastIndex\<close>.\<close>

definition parsePlaceholders :: "nat \<Rightarrow> string \<Rightarrow> placeholder list \<times> nat" where
  "parsePlaceholders lastIndex command = parse_loop command lastIndex {} []"

text \<open>
  \<^verbatim>\<open>hasPlaceholders(command)\<close>: \<^verbatim>\<open>PLACEHOLDER_REGEX.lastIndex = 0\<close>, then
  \<^verbatim>\<open>test\<close>, which is \<^verbatim>\<open>exec(command) !== null\<close> and moves \<^verbatim>\<open>lastIndex\<close> as
  \<^verbatim>\<open>exec\<close> does.
\<close>

definition hasPlaceholders :: "nat \<Rightarrow> string \<Rightarrow> bool \<times> nat" where
  "hasPlaceholders lastIndex command =
     (case regex_exec 0 command of (m, li) \<Rightarrow> (m \<noteq> None, li))"

subsection \<open>substitutePlaceholders\<close>

text \<open>
  \<^verbatim>\<open>String.prototype.replace\<close> with a global expression and a function: it sets
  \<^verbatim>\<open>lastIndex\<close> to 0, collects the results of \<^verbatim>\<open>exec\<close> until it fails, then
  builds the new string from the text between the matches and the function's value
  at each match (a match that starts before the end of the previous one is dropped).
\<close>

function collect_matches ::
  "string \<Rightarrow> nat \<Rightarrow> (groups \<times> nat) list \<Rightarrow> (groups \<times> nat) list \<times> nat" where
  "collect_matches s lastIndex results =
     (case regex_exec lastIndex s of
        (None, li) \<Rightarrow> (results, li)
      | (Some m, li) \<Rightarrow> collect_matches s li (results @ [m]))"
  by pat_completeness auto
termination
proof (relation "measure (\<lambda>(s, lastIndex, results). Suc (length s) - lastIndex)")
  show "wf (measure (\<lambda>(s, lastIndex, results). Suc (length s) - lastIndex))"
    by simp
next
  fix s :: string and lastIndex :: nat and results :: "(groups \<times> nat) list" and x1 x2 x2a
  assume "(x1, x2) = regex_exec lastIndex s" "x1 = Some x2a"
  then have "regex_exec lastIndex s = (Some x2a, x2)" by simp
  from regex_exec_advances [OF this]
  show "((s, x2, results @ [x2a]), s, lastIndex, results)
          \<in> measure (\<lambda>(s, lastIndex, results). Suc (length s) - lastIndex)"
    by auto
qed

fun splice_results ::
  "string \<Rightarrow> (groups \<Rightarrow> string) \<Rightarrow> (groups \<times> nat) list \<Rightarrow> nat \<Rightarrow> string \<Rightarrow> string" where
  "splice_results s f [] nextSourcePosition accumulated = accumulated @ drop nextSourcePosition s"
| "splice_results s f ((g, position) # rs) nextSourcePosition accumulated =
     (if nextSourcePosition \<le> position
      then splice_results s f rs (position + length (fst g))
             (accumulated @ take (position - nextSourcePosition) (drop nextSourcePosition s) @ f g)
      else splice_results s f rs nextSourcePosition accumulated)"

definition string_replace :: "nat \<Rightarrow> string \<Rightarrow> (groups \<Rightarrow> string) \<Rightarrow> string \<times> nat" where
  "string_replace lastIndex s f =
     (case collect_matches s 0 [] of (results, li) \<Rightarrow> (splice_results s f results 0 [], li))"

text \<open>
  The replacement function \<^verbatim>\<open>(match, name, defaultValue) => ...\<close> of the source, with
  the conversion of its result to a string.
\<close>

fun replacer :: "(string \<Rightarrow> string) \<Rightarrow> values_record \<Rightarrow> groups \<Rightarrow> string" where
  "replacer native_text vals (fullMatch, nm, dflt) =
     (if has_property vals nm \<and> get_property vals nm \<noteq> None \<and>
         get_property vals nm \<noteq> Some (JString [])
      then (case get_property vals nm of Some v \<Rightarrow> to_string native_text v | None \<Rightarrow> [])
      else case dflt of
        Some d \<Rightarrow> d
      | None \<Rightarrow> fullMatch)"

text \<open>
  \<^verbatim>\<open>result.replace(ESCAPED_BRACE_REGEX, "$1")\<close> with \<^verbatim>\<open>/\\([{}])/g\<close>: scanning from
  the left, a backslash followed by a brace is replaced by the brace (capture group 1)
  and the scan goes on after the brace; any other character is kept.
\<close>

fun unescape_braces :: "string \<Rightarrow> string" where
  "unescape_braces (a # b # cs) =
     (if a = backslash \<and> (b = lbrace \<or> b = rbrace) then b # unescape_braces cs
      else a # unescape_braces (b # cs))"
| "unescape_braces cs = cs"

definition substitutePlaceholders ::
  "(string \<Rightarrow> string) \<Rightarrow> nat \<Rightarrow> string \<Rightarrow> values_record \<Rightarrow> string \<times> nat" where
  "substitutePlaceholders native_text lastIndex command vals =
     (case string_replace lastIndex command (replacer native_text vals) of
        (result, li) \<Rightarrow> (unescape_braces result, li))"

subsection \<open>validatePlaceholderValues, buildInitialValues, mapArgsToPlaceholders\<close>

record validation =
  valid :: bool
  missing :: "string list"

fun validate_loop :: "placeholder list \<Rightarrow> values_record \<Rightarrow> string list \<Rightarrow> string list" where
  "validate_loop [] vals acc = acc"
| "validate_loop (ph # phs) vals acc =
     (if required ph then
        (let v = get_property vals (name ph) in
         if v = None \<or> v = Some (JString []) then validate_loop phs vals (acc @ [name ph])
         else validate_loop phs vals acc)
      else validate_loop phs vals acc)"

definition validatePlaceholderValues :: "placeholder list \<Rightarrow> values_record \<Rightarrow> validation" where
  "validatePlaceholderValues placeholders vals =
     (let m = validate_loop placeholders vals []
      in \<lparr>valid = (length m = 0), missing = m\<rparr>)"

fun initial_loop :: "placeholder list \<Rightarrow> values_record \<Rightarrow> values_record" where
  "initial_loop [] vals = vals"
| "initial_loop (ph # phs) vals =
     initial_loop phs
       (set_property vals (name ph) (case defaultValue ph of Some d \<Rightarrow> d | None \<Rightarrow> []))"

definition buildInitialValues :: "placeholder list \<Rightarrow> values_record" where
  "buildInitialValues placeholders = initial_loop placeholders Map.empty"

text \<open>
  The loop \<^verbatim>\<open>for (let i = 0; i < Math.min(args.length, placeholders.length); i++)\<close>.
  Inside the bound both \<^verbatim>\<open>placeholders[i]\<close> and \<^verbatim>\<open>args[i]\<close> are defined, so the
  guard \<^verbatim>\<open>placeholder && arg !== undefined\<close> holds and the assignment is made.
\<close>

function args_loop ::
  "placeholder list \<Rightarrow> string list \<Rightarrow> nat \<Rightarrow> values_record \<Rightarrow> values_record" where
  "args_loop placeholders args i vals =
     (if i < min (length args) (length placeholders)
      then args_loop placeholders args (Suc i)
             (set_property vals (name (placeholders ! i)) (args ! i))
      else vals)"
  by pat_completeness auto
termination
  by (relation "measure (\<lambda>(placeholders, args, i, vals). min (length args) (length placeholders) - i)")
     auto

definition mapArgsToPlaceholders :: "placeholder list \<Rightarrow> string list \<Rightarrow> values_record" where
  "mapArgsToPlaceholders placeholders args = args_loop placeholders args 0 (buildInitialValues placeholders)"

subsection \<open>A sequence of calls on one engine\<close>

text \<open>
  The module holds one \<^verbatim>\<open>PLACEHOLDER_REGEX\<close> object. A sequence of calls of
  \<^verbatim>\<open>hasPlaceholders\<close> and \<^verbatim>\<open>parsePlaceholders\<close> threads its \<^verbatim>\<open>lastIndex\<close>
  from each call to the next; a fresh engine has \<^verbatim>\<open>lastIndex = 0\<close>.
\<close>

datatype engine_call = HasPlaceholders string | ParsePlaceholders string

datatype engine_answer = Flag bool | Slots "placeholder list"

fun perform :: "nat \<Rightarrow> engine_call \<Rightarrow> engine_answer \<times> nat" where
  "perform lastIndex (HasPlaceholders t) =
     (case hasPlaceholders lastIndex t of (b, li) \<Rightarrow> (Flag b, li))"
| "perform lastIndex (ParsePlaceholders t) =
     (case parsePlaceholders lastIndex t of (ps, li) \<Rightarrow> (Slots ps, li))"

fun run_calls :: "nat \<Rightarrow> engine_call list \<Rightarrow> engine_answer list" where
  "run_calls lastIndex [] = []"
| "run_calls lastIndex (c # cs) =
     (case perform lastIndex c of (a, li) \<Rightarrow> a # run_calls li cs)"

definition fresh_answer :: "engine_call \<Rightarrow> engine_answer" where
  "fresh_answer c = fst (perform 0 c)"

section \<open>The grammar and the scan as the specification words them\<close>

text \<open>
  The specification's grammar: a placeholder is the text \<^verbatim>\<open>{name}\<close> or
  \<^verbatim>\<open>{name:default}\<close>; the name starts with a letter or an underscore and goes on with
  letters, digits, underscores or hyphens; the default is any text without a closing
  brace, possibly empty; and the opening brace does not follow a backslash. Read from
  an opening brace, the body runs to the first closing brace, the name to the first
  colon of the body, and the default is what follows that colon.
\<close>

definition is_identifier :: "string \<Rightarrow> bool" where
  "is_identifier n = (case n of [] \<Rightarrow> False | c # cs \<Rightarrow> name_start c \<and> list_all name_char cs)"

definition grammar_at :: "char option \<Rightarrow> string \<Rightarrow> groups option" where
  "grammar_at prev s =
     (case s of
        [] \<Rightarrow> None
      | b # rest \<Rightarrow>
          if b = lbrace \<and> prev \<noteq> Some backslash \<and> rbrace \<in> set rest then
            (let body = takeWhile (\<lambda>c. c \<noteq> rbrace) rest;
                 nm = takeWhile (\<lambda>c. c \<noteq> colon) body;
                 d = (if colon \<in> set body then Some (drop (Suc (length nm)) body) else None)
             in if is_identifier nm then Some (lbrace # body @ [rbrace], nm, d) else None)
          else None)"

text \<open>The code unit before index \<open>k\<close> of \<open>s\<close>, if there is one.\<close>

definition char_before :: "string \<Rightarrow> nat \<Rightarrow> char option" where
  "char_before s k = (if k = 0 then None else Some (s ! (k - 1)))"

subsection \<open>The regular expression accepts the grammar\<close>

lemma name_char_not_special: "name_char x \<Longrightarrow> x \<noteq> rbrace \<and> x \<noteq> colon"
  by (auto simp: name_char_def rbrace_def colon_def)

lemma name_start_char: "name_start x \<Longrightarrow> name_char x"
  by (auto simp: name_char_def name_start_def Let_def)

lemma colon_not_rbrace: "colon \<noteq> rbrace"
  by (simp add: colon_def rbrace_def)

lemma takeWhile_all: "(\<And>x. x \<in> set xs \<Longrightarrow> P x) \<Longrightarrow> takeWhile P xs = xs"
  by (induction xs) auto

lemma match_at_imp_grammar_at:
  assumes "match_at prev s = Some g"
  shows "grammar_at prev s = Some g"
proof -
  from match_at_SomeD [OF assms] obtain c nm d r where
    p: "prev \<noteq> Some backslash" and c: "name_start c" and nm: "\<forall>x\<in>set nm. name_char x" and
    alt: "(g = (lbrace # c # nm @ [rbrace], c # nm, None) \<and> s = lbrace # c # nm @ rbrace # r) \<or>
            (rbrace \<notin> set d \<and> g = (lbrace # c # nm @ colon # d @ [rbrace], c # nm, Some d)
               \<and> s = lbrace # c # nm @ colon # d @ rbrace # r)"
    by blast
  have id: "is_identifier (c # nm)"
    using c nm by (simp add: is_identifier_def list_all_iff)
  have cn: "rbrace \<notin> set (c # nm)" "colon \<notin> set (c # nm)"
    using c nm name_char_not_special name_start_char by auto
  from alt show ?thesis
  proof
    assume a: "g = (lbrace # c # nm @ [rbrace], c # nm, None) \<and> s = lbrace # c # nm @ rbrace # r"
    have body: "takeWhile (\<lambda>c. c \<noteq> rbrace) ((c # nm) @ rbrace # r) = c # nm"
      using cn(1) by (rule takeWhile_upto)
    have nmeq: "takeWhile (\<lambda>x. x \<noteq> colon) (c # nm) = c # nm"
      using cn(2) by (intro takeWhile_all) auto
    have inr: "rbrace \<in> set (c # nm @ rbrace # r)" by simp
    show ?thesis
      using a p id cn body nmeq inr unfolding grammar_at_def
      by (simp del: takeWhile.simps set_simps takeWhile_eq_all_conv add: Let_def)
  next
    assume a: "rbrace \<notin> set d \<and> g = (lbrace # c # nm @ colon # d @ [rbrace], c # nm, Some d)
               \<and> s = lbrace # c # nm @ colon # d @ rbrace # r"
    have nb: "rbrace \<notin> set ((c # nm) @ colon # d)"
      using cn(1) a colon_not_rbrace by auto
    have body: "takeWhile (\<lambda>c. c \<noteq> rbrace) (((c # nm) @ colon # d) @ rbrace # r) = (c # nm) @ colon # d"
      using nb by (rule takeWhile_upto)
    have nmeq: "takeWhile (\<lambda>x. x \<noteq> colon) ((c # nm) @ colon # d) = c # nm"
      using cn(2) by (rule takeWhile_upto)
    have s: "s = lbrace # (((c # nm) @ colon # d) @ rbrace # r)"
      using a by simp
    show ?thesis
      unfolding grammar_at_def s
      using a p id body nmeq
      by (simp del: takeWhile.simps takeWhile_append1 takeWhile_append2 append_assoc add: Let_def)
  qed
qed

lemma grammar_at_imp_match_at:
  assumes "grammar_at prev s = Some g"
  shows "match_at prev s = Some g"
proof -
  from assms obtain rest where s: "s = lbrace # rest" and p: "prev \<noteq> Some backslash"
    and rb: "rbrace \<in> set rest"
    by (auto simp: grammar_at_def split: list.splits if_splits)
  define body where "body = takeWhile (\<lambda>c. c \<noteq> rbrace) rest"
  define nm where "nm = takeWhile (\<lambda>c. c \<noteq> colon) body"
  define d where "d = (if colon \<in> set body then Some (drop (Suc (length nm)) body) else None)"
  from assms s p rb have id: "is_identifier nm" and g: "g = (lbrace # body @ [rbrace], nm, d)"
    unfolding grammar_at_def body_def nm_def d_def
    by (auto simp: Let_def split: if_splits)
  have "dropWhile (\<lambda>c. c \<noteq> rbrace) rest \<noteq> []"
    using rb by (simp)
  then obtain y r where dw: "dropWhile (\<lambda>c. c \<noteq> rbrace) rest = y # r"
    by (cases "dropWhile (\<lambda>c. c \<noteq> rbrace) rest") auto
  have "y = rbrace"
    using hd_dropWhile [of "\<lambda>c. c \<noteq> rbrace" rest] dw by auto
  with dw have rest: "rest = body @ rbrace # r"
    unfolding body_def by (metis takeWhile_dropWhile_id)
  have bnr: "rbrace \<notin> set body"
    unfolding body_def by (auto dest: set_takeWhileD)
  from id obtain c nm' where nmc: "nm = c # nm'" and c: "name_start c" and nm': "\<forall>x\<in>set nm'. name_char x"
    by (auto simp: is_identifier_def list_all_iff split: list.splits)
  show ?thesis
  proof (cases "colon \<in> set body")
    case True
    then have "dropWhile (\<lambda>c. c \<noteq> colon) body \<noteq> []" by simp
    then obtain y' z where dw': "dropWhile (\<lambda>c. c \<noteq> colon) body = y' # z"
      by (cases "dropWhile (\<lambda>c. c \<noteq> colon) body") auto
    have "y' = colon"
      using hd_dropWhile [of "\<lambda>c. c \<noteq> colon" body] dw' by auto
    with dw' have body: "body = nm @ colon # z"
      unfolding nm_def by (metis takeWhile_dropWhile_id)
    have dz: "d = Some z" using True body by (simp add: d_def)
    have znr: "rbrace \<notin> set z" using bnr body by simp
    have "s = lbrace # c # nm' @ colon # z @ rbrace # r"
      using s rest body nmc by simp
    with match_at_default [OF p c nm' znr, of r] g dz body nmc show ?thesis by simp
  next
    case False
    then have body: "body = nm" unfolding nm_def by (intro takeWhile_all [symmetric]) auto
    have "s = lbrace # c # nm' @ rbrace # r"
      using s rest body nmc by simp
    with match_at_plain [OF p c nm', of r] g False body nmc show ?thesis by (simp add: d_def)
  qed
qed

lemma match_at_eq_grammar_at: "match_at prev s = grammar_at prev s"
proof (cases "grammar_at prev s")
  case None
  then show ?thesis
    using match_at_imp_grammar_at [of prev s] by (cases "match_at prev s") auto
next
  case (Some g)
  then show ?thesis using grammar_at_imp_match_at by simp
qed

lemma grammar_at_prefix:
  assumes "grammar_at prev s = Some g"
  shows "0 < length (fst g) \<and> length (fst g) \<le> length s \<and> take (length (fst g)) s = fst g
         \<and> last (fst g) = rbrace"
  using match_at_prefix [of prev s g] assms by (simp add: match_at_eq_grammar_at)

subsection \<open>The matches of a template, from the left\<close>

text \<open>
  The non-overlapping matches of the grammar in \<open>s\<close> at or after index \<open>k\<close>, each with
  the index of its first character, in the order of these indices: where the grammar
  matches, the match is taken and the scan goes on after its last character; elsewhere
  the scan moves one character on.
\<close>

function grammar_matches :: "string \<Rightarrow> nat \<Rightarrow> (groups \<times> nat) list" where
  "grammar_matches s k =
     (if length s \<le> k then []
      else case grammar_at (char_before s k) (drop k s) of
        None \<Rightarrow> grammar_matches s (Suc k)
      | Some g \<Rightarrow> (g, k) # grammar_matches s (k + length (fst g)))"
  by pat_completeness auto
termination
proof (relation "measure (\<lambda>(s, k). length s - k)")
  show "wf (measure (\<lambda>(s, k). length s - k))" by simp
next
  fix s :: string and k :: nat
  assume "\<not> length s \<le> k"
  then show "((s, Suc k), s, k) \<in> measure (\<lambda>(s, k). length s - k)" by simp
next
  fix s :: string and k :: nat and g :: groups
  assume "\<not> length s \<le> k" and "grammar_at (char_before s k) (drop k s) = Some g"
  from grammar_at_prefix [OF this(2)] have "0 < length (fst g)" by blast
  with \<open>\<not> length s \<le> k\<close> have "length s - (k + length (fst g)) < length s - k" by linarith
  then show "((s, k + length (fst g)), s, k) \<in> measure (\<lambda>(s, k). length s - k)" by simp
qed

text \<open>
  The slot of a match: \<^verbatim>\<open>defaultValue\<close> is absent exactly when the match has no colon
  section, \<^verbatim>\<open>required\<close> is true exactly then, and \<^verbatim>\<open>match\<close> is the matched text.
\<close>

fun slot_of :: "groups \<Rightarrow> placeholder" where
  "slot_of (text, nm, d) = \<lparr>name = nm, defaultValue = d, required = (d = None), match = text\<rparr>"

text \<open>First occurrence wins: a match is emitted, and later matches of its name are dropped.\<close>

fun first_slots :: "groups list \<Rightarrow> placeholder list" where
  "first_slots [] = []"
| "first_slots (g # gs) =
     slot_of g # first_slots (filter (\<lambda>h. fst (snd h) \<noteq> fst (snd g)) gs)"

definition spec_parse :: "string \<Rightarrow> placeholder list" where
  "spec_parse t = first_slots (map fst (grammar_matches t 0))"

declare grammar_matches.simps [simp del]

subsection \<open>exec finds the next match of the grammar\<close>

lemma search_from_matches:
  "k \<le> length s \<Longrightarrow>
   search_from (char_before s k) (drop k s) k =
     (case grammar_matches s k of [] \<Rightarrow> None | m # _ \<Rightarrow> Some m)"
proof (induction s k rule: grammar_matches.induct)
  case (1 s k)
  show ?case
  proof (cases "length s \<le> k")
    case True
    then show ?thesis by (simp add: grammar_matches.simps [of s k])
  next
    case False
    then have d: "drop k s = s ! k # drop (Suc k) s"
      by (simp add: Cons_nth_drop_Suc)
    have cb: "char_before s (Suc k) = Some (s ! k)" by (simp add: char_before_def)
    show ?thesis
    proof (cases "grammar_at (char_before s k) (drop k s)")
      case None
      with False "1.IH"(1) have "search_from (char_before s (Suc k)) (drop (Suc k) s) (Suc k) =
        (case grammar_matches s (Suc k) of [] \<Rightarrow> None | m # _ \<Rightarrow> Some m)" by simp
      with None False d cb show ?thesis
        by (simp add: grammar_matches.simps [of s k] match_at_eq_grammar_at)
    next
      case (Some g)
      with False d show ?thesis
        by (simp add: grammar_matches.simps [of s k] match_at_eq_grammar_at)
    qed
  qed
qed

lemma grammar_matches_tail:
  "grammar_matches s k = (g, i) # rest \<Longrightarrow>
   rest = grammar_matches s (i + length (fst g)) \<and> k \<le> i \<and> i + length (fst g) \<le> length s"
proof (induction s k rule: grammar_matches.induct)
  case (1 s k)
  from "1.prems" have lt: "\<not> length s \<le> k"
    by (auto simp: grammar_matches.simps [of s k] split: if_splits)
  show ?case
  proof (cases "grammar_at (char_before s k) (drop k s)")
    case None
    with lt "1.prems" have "grammar_matches s (Suc k) = (g, i) # rest"
      by (simp add: grammar_matches.simps [of s k])
    from "1.IH"(1) [OF lt None this] show ?thesis by simp
  next
    case (Some h)
    with lt have "grammar_matches s k = (h, k) # grammar_matches s (k + length (fst h))"
      by (simp add: grammar_matches.simps [of s k])
    with "1.prems" have e: "h = g" "k = i" "grammar_matches s (k + length (fst h)) = rest"
      by auto
    from grammar_at_prefix [OF Some] have "length (fst h) \<le> length (drop k s)" by blast
    with e lt show ?thesis by auto
  qed
qed

lemma regex_exec_matches:
  "k \<le> length s \<Longrightarrow>
   regex_exec k s =
     (case grammar_matches s k of
        [] \<Rightarrow> (None, 0)
      | (g, i) # _ \<Rightarrow> (Some (g, i), i + length (fst g)))"
  using search_from_matches [of k s]
  by (auto simp: regex_exec_def char_before_def split: list.splits)

lemma regex_exec_beyond: "length s < k \<Longrightarrow> regex_exec k s = (None, 0)"
  by (simp add: regex_exec_def)

subsection \<open>The parse loop emits the first occurrences\<close>

declare parse_loop.simps [simp del]
declare collect_matches.simps [simp del]

lemma parse_loop_matches:
  "k \<le> length s \<Longrightarrow>
   parse_loop s k seen acc =
     (acc @ first_slots (filter (\<lambda>h. fst (snd h) \<notin> seen) (map fst (grammar_matches s k))), 0)"
proof (induction s k seen acc rule: parse_loop.induct)
  case (1 s k seen acc)
  show ?case
  proof (cases "grammar_matches s k")
    case Nil
    with "1.prems" have "regex_exec k s = (None, 0)"
      by (simp add: regex_exec_matches)
    with Nil show ?thesis by (simp add: parse_loop.simps [of s k])
  next
    case (Cons m rest)
    obtain tx nm d i where m: "m = ((tx, nm, d), i)" by (cases m) auto
    let ?li = "i + length tx"
    from Cons m "1.prems" have ex: "regex_exec k s = (Some ((tx, nm, d), i), ?li)"
      by (simp add: regex_exec_matches)
    from grammar_matches_tail [of s k "(tx, nm, d)" i rest] Cons m
    have rest: "rest = grammar_matches s ?li" and le: "?li \<le> length s" by simp_all
    show ?thesis
    proof (cases "nm \<in> seen")
      case True
      from "1.IH"(1) [OF ex [symmetric] refl refl refl refl True le]
      have "parse_loop s ?li seen acc =
          (acc @ first_slots (filter (\<lambda>h. fst (snd h) \<notin> seen) (map fst (grammar_matches s ?li))), 0)" .
      with ex True Cons m rest show ?thesis
        by (simp add: parse_loop.simps [of s k])
    next
      case False
      let ?slot = "\<lparr>name = nm, defaultValue = d, required = (d = None), match = tx\<rparr>"
      from "1.IH"(2) [OF ex [symmetric] refl refl refl refl False le]
      have "parse_loop s ?li (insert nm seen) (acc @ [?slot]) =
          ((acc @ [?slot]) @ first_slots (filter (\<lambda>h. fst (snd h) \<notin> insert nm seen)
              (map fst (grammar_matches s ?li))), 0)" .
      moreover have "filter (\<lambda>h. fst (snd h) \<noteq> nm) (filter (\<lambda>h. fst (snd h) \<notin> seen) (map fst rest)) =
          filter (\<lambda>h. fst (snd h) \<notin> insert nm seen) (map fst rest)"
        by (auto intro: filter_cong)
      ultimately show ?thesis using ex False Cons m rest
        by (simp add: parse_loop.simps [of s k])
    qed
  qed
qed

lemma parsePlaceholders_fresh: "parsePlaceholders 0 t = (spec_parse t, 0)"
  by (simp add: parsePlaceholders_def spec_parse_def parse_loop_matches)

lemma hasPlaceholders_matches:
  "hasPlaceholders k t = (grammar_matches t 0 \<noteq> [], case grammar_matches t 0 of [] \<Rightarrow> 0 | (g, i) # _ \<Rightarrow> i + length (fst g))"
  by (simp add: hasPlaceholders_def regex_exec_matches split: list.splits)

lemma first_slots_Nil: "(first_slots gs = []) = (gs = [])"
  by (cases gs) simp_all

lemma hasPlaceholders_iff_parse: "fst (hasPlaceholders k t) = (fst (parsePlaceholders 0 t) \<noteq> [])"
  by (simp add: hasPlaceholders_matches parsePlaceholders_fresh spec_parse_def first_slots_Nil)

subsection \<open>Substitution as one pass over the pieces of the original template\<close>

text \<open>
  The pieces of \<open>s\<close> from index \<open>k\<close>, from the left: where the grammar matches, the match
  is one piece and the next piece starts after its last character; elsewhere the
  character is a piece. The pieces depend on the template alone.
\<close>

function template_pieces :: "string \<Rightarrow> nat \<Rightarrow> (char + groups) list" where
  "template_pieces s k =
     (if length s \<le> k then []
      else case grammar_at (char_before s k) (drop k s) of
        None \<Rightarrow> Inl (s ! k) # template_pieces s (Suc k)
      | Some g \<Rightarrow> Inr g # template_pieces s (k + length (fst g)))"
  by pat_completeness auto
termination
proof (relation "measure (\<lambda>(s, k). length s - k)")
  show "wf (measure (\<lambda>(s, k). length s - k))" by simp
next
  fix s :: string and k :: nat
  assume "\<not> length s \<le> k"
  then show "((s, Suc k), s, k) \<in> measure (\<lambda>(s, k). length s - k)" by simp
next
  fix s :: string and k :: nat and g :: groups
  assume "\<not> length s \<le> k" and "grammar_at (char_before s k) (drop k s) = Some g"
  from grammar_at_prefix [OF this(2)] have "0 < length (fst g)" by blast
  with \<open>\<not> length s \<le> k\<close> have "length s - (k + length (fst g)) < length s - k" by linarith
  then show "((s, k + length (fst g)), s, k) \<in> measure (\<lambda>(s, k). length s - k)"
    by simp
qed

declare template_pieces.simps [simp del]

text \<open>
  The text of a piece under a replacement function \<open>f\<close>: a character stands for itself,
  a match for what \<open>f\<close> gives for it. The text is not looked into again.
\<close>

fun render :: "(groups \<Rightarrow> string) \<Rightarrow> char + groups \<Rightarrow> string" where
  "render f (Inl c) = [c]"
| "render f (Inr g) = f g"

text \<open>The matches among the pieces, in order.\<close>

fun slots_of_pieces :: "(char + groups) list \<Rightarrow> groups list" where
  "slots_of_pieces [] = []"
| "slots_of_pieces (Inl c # ps) = slots_of_pieces ps"
| "slots_of_pieces (Inr g # ps) = g # slots_of_pieces ps"

text \<open>A value is provided when the mapping has one for the name and it is not empty.\<close>

definition provided :: "values_record \<Rightarrow> string \<Rightarrow> string option" where
  "provided vals nm = (case vals nm of None \<Rightarrow> None | Some v \<Rightarrow> if v = [] then None else Some v)"

text \<open>
  The text that the specification puts in the place of one match: the provided value,
  else the default the match declares (possibly empty), else the matched text itself,
  braces included.
\<close>

fun slot_text :: "values_record \<Rightarrow> groups \<Rightarrow> string" where
  "slot_text vals (tx, nm, d) =
     (case provided vals nm of
        Some v \<Rightarrow> v
      | None \<Rightarrow> (case d of Some z \<Rightarrow> z | None \<Rightarrow> tx))"

text \<open>A text in which no backslash is followed by a brace.\<close>

fun escaped_brace_free :: "string \<Rightarrow> bool" where
  "escaped_brace_free (a # b # cs) =
     (\<not> (a = backslash \<and> (b = lbrace \<or> b = rbrace)) \<and> escaped_brace_free (b # cs))"
| "escaped_brace_free cs = True"

subsection \<open>replace renders the pieces\<close>

lemma replacer_own_or_plain:
  "vals nm \<noteq> None \<or> inherited nm = None \<Longrightarrow>
   replacer native_text vals (tx, nm, d) = slot_text vals (tx, nm, d)"
  by (auto simp: has_property_def get_property_def provided_def split: option.splits)

lemma collect_matches_all:
  "k \<le> length s \<Longrightarrow> collect_matches s k acc = (acc @ grammar_matches s k, 0)"
proof (induction s k acc rule: collect_matches.induct)
  case (1 s k acc)
  show ?case
  proof (cases "grammar_matches s k")
    case Nil
    with "1.prems" have "regex_exec k s = (None, 0)"
      by (simp add: regex_exec_matches)
    with Nil show ?thesis by (simp add: collect_matches.simps [of s k])
  next
    case (Cons m rest)
    obtain g i where m: "m = (g, i)" by (cases m)
    let ?li = "i + length (fst g)"
    from Cons m "1.prems" have ex: "regex_exec k s = (Some (g, i), ?li)"
      by (simp add: regex_exec_matches)
    from grammar_matches_tail [of s k g i rest] Cons m
    have rest: "rest = grammar_matches s ?li" and le: "?li \<le> length s" by simp_all
    from "1.IH" [OF ex [symmetric] refl le]
    have "collect_matches s ?li (acc @ [(g, i)]) = ((acc @ [(g, i)]) @ grammar_matches s ?li, 0)" .
    with ex Cons m rest show ?thesis
      by (simp add: collect_matches.simps [of s k])
  qed
qed

lemma splice_pieces:
  "nxt \<le> k \<Longrightarrow>
   splice_results s f (grammar_matches s k) nxt acc =
     acc @ take (k - nxt) (drop nxt s) @ concat (map (render f) (template_pieces s k))"
proof (induction s k arbitrary: nxt acc rule: grammar_matches.induct)
  case (1 s k)
  show ?case
  proof (cases "length s \<le> k")
    case True
    then show ?thesis
      by (simp add: grammar_matches.simps [of s k] template_pieces.simps [of s k])
  next
    case False
    show ?thesis
    proof (cases "grammar_at (char_before s k) (drop k s)")
      case None
      from "1.prems" have "nxt \<le> Suc k" by simp
      from "1.IH"(1) [OF False None this]
      have "splice_results s f (grammar_matches s (Suc k)) nxt acc =
            acc @ take (Suc k - nxt) (drop nxt s) @
              concat (map (render f) (template_pieces s (Suc k)))" .
      moreover have "take (Suc k - nxt) (drop nxt s) = take (k - nxt) (drop nxt s) @ [s ! k]"
        using "1.prems" False by (simp add: Suc_diff_le take_Suc_conv_app_nth)
      ultimately show ?thesis using False None
        by (simp add: grammar_matches.simps [of s k] template_pieces.simps [of s k])
    next
      case (Some g)
      from "1.IH"(2) [OF False Some order_refl]
      have "splice_results s f (grammar_matches s (k + length (fst g))) (k + length (fst g))
               (acc @ take (k - nxt) (drop nxt s) @ f g) =
            (acc @ take (k - nxt) (drop nxt s) @ f g) @
              take (k + length (fst g) - (k + length (fst g))) (drop (k + length (fst g)) s) @
              concat (map (render f) (template_pieces s (k + length (fst g))))" .
      then show ?thesis using False Some "1.prems"
        by (simp add: grammar_matches.simps [of s k] template_pieces.simps [of s k])
    qed
  qed
qed

lemma substitutePlaceholders_pieces:
  "substitutePlaceholders native_text k t vals =
     (unescape_braces (concat (map (render (replacer native_text vals)) (template_pieces t 0))), 0)"
  using splice_pieces [of 0 0 t "replacer native_text vals" "[]"]
  by (simp add: substitutePlaceholders_def string_replace_def collect_matches_all)

lemma unescape_braces_occurrence:
  "b = lbrace \<or> b = rbrace \<Longrightarrow>
   unescape_braces (xs @ backslash # b # ys) = unescape_braces xs @ b # unescape_braces ys"
  by (induction xs rule: unescape_braces.induct)
     (auto simp: backslash_def lbrace_def rbrace_def)

lemma unescape_braces_free: "escaped_brace_free xs \<Longrightarrow> unescape_braces xs = xs"
  by (induction xs rule: unescape_braces.induct) auto

lemma pieces_spell_template: "concat (map (render fst) (template_pieces s k)) = drop k s"
proof (induction s k rule: template_pieces.induct)
  case (1 s k)
  show ?case
  proof (cases "length s \<le> k")
    case True
    then show ?thesis by (simp add: template_pieces.simps [of s k])
  next
    case False
    then have d: "drop k s = s ! k # drop (Suc k) s" by (simp add: Cons_nth_drop_Suc)
    show ?thesis
    proof (cases "grammar_at (char_before s k) (drop k s)")
      case None
      with False "1.IH"(1) d show ?thesis by (simp add: template_pieces.simps [of s k])
    next
      case (Some g)
      from grammar_at_prefix [OF Some] have "take (length (fst g)) (drop k s) = fst g" by blast
      then have "fst g @ drop (k + length (fst g)) s = drop k s"
        by (metis add.commute append_take_drop_id drop_drop)
      with False Some "1.IH"(2) show ?thesis by (simp add: template_pieces.simps [of s k])
    qed
  qed
qed

lemma pieces_slots_matches:
  "slots_of_pieces (template_pieces s k) = map fst (grammar_matches s k)"
proof (induction s k rule: template_pieces.induct)
  case (1 s k)
  show ?case
  proof (cases "length s \<le> k")
    case True
    then show ?thesis
      by (simp add: template_pieces.simps [of s k] grammar_matches.simps [of s k])
  next
    case False
    show ?thesis
    proof (cases "grammar_at (char_before s k) (drop k s)")
      case None
      with False "1.IH"(1) show ?thesis
        by (simp add: template_pieces.simps [of s k] grammar_matches.simps [of s k])
    next
      case (Some g)
      with False "1.IH"(2) show ?thesis
        by (simp add: template_pieces.simps [of s k] grammar_matches.simps [of s k])
    qed
  qed
qed

subsection \<open>The grammar, declaratively\<close>



subsection \<open>The scan finds the matches, in order, without overlap, and misses none\<close>






subsection \<open>Templates without braces; where the text of a match ends up\<close>

lemma grammar_at_needs_lbrace: "grammar_at prev (c # cs) = Some g \<Longrightarrow> c = lbrace"
  by (auto simp: grammar_at_def split: if_splits)

lemma no_lbrace_no_match_at:
  assumes "lbrace \<notin> set s" "\<not> length s \<le> k"
  shows "grammar_at (char_before s k) (drop k s) = None"
proof -
  from assms(2) have d: "drop k s = s ! k # drop (Suc k) s" by (simp add: Cons_nth_drop_Suc)
  from assms have "s ! k \<noteq> lbrace" by (metis not_le nth_mem)
  with d show ?thesis
    using grammar_at_needs_lbrace [of "char_before s k" "s ! k" "drop (Suc k) s"]
    by (cases "grammar_at (char_before s k) (drop k s)") auto
qed

lemma no_lbrace_no_matches: "lbrace \<notin> set s \<Longrightarrow> grammar_matches s k = []"
proof (induction s k rule: grammar_matches.induct)
  case (1 s k)
  show ?case
  proof (cases "length s \<le> k")
    case True
    then show ?thesis by (simp add: grammar_matches.simps [of s k])
  next
    case False
    from no_lbrace_no_match_at [OF "1.prems" False] False "1.IH"(1) "1.prems"
    show ?thesis by (simp add: grammar_matches.simps [of s k])
  qed
qed

lemma no_lbrace_pieces:
  "lbrace \<notin> set s \<Longrightarrow> concat (map (render f) (template_pieces s k)) = drop k s"
proof (induction s k rule: template_pieces.induct)
  case (1 s k)
  show ?case
  proof (cases "length s \<le> k")
    case True
    then show ?thesis by (simp add: template_pieces.simps [of s k])
  next
    case False
    then have d: "drop k s = s ! k # drop (Suc k) s" by (simp add: Cons_nth_drop_Suc)
    from no_lbrace_no_match_at [OF "1.prems" False] False "1.IH"(1) "1.prems" d
    show ?thesis by (simp add: template_pieces.simps [of s k])
  qed
qed

lemma no_braces_free: "lbrace \<notin> set xs \<Longrightarrow> rbrace \<notin> set xs \<Longrightarrow> escaped_brace_free xs"
  by (induction xs rule: escaped_brace_free.induct) auto

lemma parsePlaceholders_no_lbrace: "lbrace \<notin> set t \<Longrightarrow> parsePlaceholders k t = ([], 0)"
proof (cases "k \<le> length t")
  case True
  assume "lbrace \<notin> set t"
  with True show ?thesis
    by (simp add: parsePlaceholders_def parse_loop_matches no_lbrace_no_matches)
next
  case False
  then have "regex_exec k t = (None, 0)" by (simp add: regex_exec_beyond)
  then show ?thesis by (simp add: parsePlaceholders_def parse_loop.simps [of t k])
qed

lemma pieces_contain:
  "m \<in> set (grammar_matches s k) \<Longrightarrow>
   \<exists>a c. concat (map (render f) (template_pieces s k)) = a @ f (fst m) @ c"
proof (induction s k rule: grammar_matches.induct)
  case (1 s k)
  from "1.prems" have lt: "\<not> length s \<le> k"
    by (auto simp: grammar_matches.simps [of s k] split: if_splits)
  show ?case
  proof (cases "grammar_at (char_before s k) (drop k s)")
    case None
    with lt "1.prems" have "m \<in> set (grammar_matches s (Suc k))"
      by (simp add: grammar_matches.simps [of s k])
    from "1.IH"(1) [OF lt None this] obtain a c where
      "concat (map (render f) (template_pieces s (Suc k))) = a @ f (fst m) @ c" by blast
    with lt None have "concat (map (render f) (template_pieces s k)) = (s ! k # a) @ f (fst m) @ c"
      by (simp add: template_pieces.simps [of s k])
    then show ?thesis by blast
  next
    case (Some g)
    with lt "1.prems" have "m = (g, k) \<or> m \<in> set (grammar_matches s (k + length (fst g)))"
      by (simp add: grammar_matches.simps [of s k])
    then show ?thesis
    proof
      assume "m = (g, k)"
      with lt Some have "concat (map (render f) (template_pieces s k)) =
          [] @ f (fst m) @ concat (map (render f) (template_pieces s (k + length (fst g))))"
        by (simp add: template_pieces.simps [of s k])
      then show ?thesis by blast
    next
      assume "m \<in> set (grammar_matches s (k + length (fst g)))"
      from "1.IH"(2) [OF lt Some this] obtain a c where
        "concat (map (render f) (template_pieces s (k + length (fst g)))) = a @ f (fst m) @ c"
        by blast
      with lt Some have "concat (map (render f) (template_pieces s k)) = (f g @ a) @ f (fst m) @ c"
        by (simp add: template_pieces.simps [of s k])
      then show ?thesis by blast
    qed
  qed
qed

section \<open>The search engine (utils/fuzzy)\<close>

subsection \<open>Data\<close>

text \<open>
  The interface \<^verbatim>\<open>Command\<close> of storage/types.ts. The fields \<^verbatim>\<open>id\<close> and \<^verbatim>\<open>command\<close> are
  \<open>cmd_id\<close> and \<open>command_line\<close> here; numbers are integers.
\<close>

record command =
  cmd_id :: string
  command_line :: string
  description :: "string option"
  favorite :: bool
  createdAt :: int
  updatedAt :: int
  usageCount :: int
  lastUsed :: "int option"

subsection \<open>sortCommands\<close>

text \<open>
  Modelled from the spec: \<^verbatim>\<open>String.prototype.localeCompare\<close> belongs to the JavaScript
  runtime, not to the repository. The specification asks for ascending case-sensitive
  string order on \<^verbatim>\<open>id\<close>; on the ids the store admits (\<^verbatim>\<open>validateId\<close>: lower-case
  letters, digits and single hyphens) the collation order is the order of the code units.
  Modelled as the three-way comparison of two strings, code unit by code unit.
\<close>

fun localeCompare :: "string \<Rightarrow> string \<Rightarrow> int" where
  "localeCompare [] [] = 0"
| "localeCompare [] (y # ys) = - 1"
| "localeCompare (x # xs) [] = 1"
| "localeCompare (x # xs) (y # ys) =
     (if (of_char x :: nat) < of_char y then - 1
      else if (of_char y :: nat) < of_char x then 1
      else localeCompare xs ys)"

text \<open>The comparator \<^verbatim>\<open>(a, b) => ...\<close> that \<^verbatim>\<open>sortCommands\<close> passes to \<^verbatim>\<open>sort\<close>.\<close>

definition compareCommands :: "command \<Rightarrow> command \<Rightarrow> int" where
  "compareCommands a b =
     (if favorite a \<noteq> favorite b then (if favorite a then - 1 else 1)
      else if usageCount a \<noteq> usageCount b then usageCount b - usageCount a
      else localeCompare (cmd_id a) (cmd_id b))"

text \<open>
  \<^verbatim>\<open>Array.prototype.sort\<close> with a comparator is stable: an element goes before the
  elements it does not compare greater than, and elements that compare equal keep their
  order. It is modelled as the stable insertion sort by the comparator.
\<close>

fun insert_sorted :: "('a \<Rightarrow> 'a \<Rightarrow> int) \<Rightarrow> 'a \<Rightarrow> 'a list \<Rightarrow> 'a list" where
  "insert_sorted cmp x [] = [x]"
| "insert_sorted cmp x (y # ys) =
     (if cmp x y \<le> 0 then x # y # ys else y # insert_sorted cmp x ys)"

definition array_sort :: "('a \<Rightarrow> 'a \<Rightarrow> int) \<Rightarrow> 'a list \<Rightarrow> 'a list" where
  "array_sort cmp xs = foldr (insert_sorted cmp) xs []"

text \<open>\<^verbatim>\<open>sortCommands(commands)\<close>, as the elements of the array it returns.\<close>

definition sortCommands :: "command list \<Rightarrow> command list" where
  "sortCommands commands = array_sort compareCommands commands"

subsection \<open>searchCommands\<close>

text \<open>
  \<^verbatim>\<open>String.prototype.trim\<close> removes white space and line terminators from both ends;
  among the code units below 256 these are 9 to 13, 32 and 160.
\<close>

definition is_space :: "char \<Rightarrow> bool" where
  "is_space c = ((of_char c :: nat) \<in> {9, 10, 11, 12, 13, 32, 160})"

definition trim :: "string \<Rightarrow> string" where
  "trim s = rev (dropWhile is_space (rev (dropWhile is_space s)))"

text \<open>
  Fuse.js is a library outside the repository. Its search is a parameter \<open>fuse\<close>: from
  the collection and the query to the list of results, each with its \<^verbatim>\<open>item\<close>, in the
  library's order of relevance. The type of the score is left open.
\<close>

record 's fuse_result =
  item :: command
  refIndex :: nat
  score :: 's

definition searchCommands ::
  "(command list \<Rightarrow> string \<Rightarrow> 's fuse_result list) \<Rightarrow> command list \<Rightarrow> string \<Rightarrow> command list" where
  "searchCommands fuse commands query =
     (if trim query = [] then sortCommands commands
      else
        (let results = fuse commands query;
             matched = map item results
         in sortCommands matched))"

subsection \<open>The same functions on a store of arrays\<close>

text \<open>
  An array is a cell of the store, named by its index; the store grows by one cell per
  new array. The spread \<^verbatim>\<open>[...commands]\<close> and \<^verbatim>\<open>results.map\<close> make new arrays;
  \<^verbatim>\<open>sort\<close> writes the array it is called on and returns it. The Fuse index reads the
  collection it is given and writes no array of commands.
\<close>

type_synonym heap = "command list list"

definition alloc :: "heap \<Rightarrow> command list \<Rightarrow> heap \<times> nat" where
  "alloc h xs = (h @ [xs], length h)"

definition sortCommands_heap :: "heap \<Rightarrow> nat \<Rightarrow> heap \<times> nat" where
  "sortCommands_heap h commands =
     (case alloc h (h ! commands) of
        (h1, copy) \<Rightarrow> (h1[copy := array_sort compareCommands (h1 ! copy)], copy))"

definition searchCommands_heap ::
  "(command list \<Rightarrow> string \<Rightarrow> 's fuse_result list) \<Rightarrow> heap \<Rightarrow> nat \<Rightarrow> string \<Rightarrow> heap \<times> nat" where
  "searchCommands_heap fuse h commands query =
     (if trim query = [] then sortCommands_heap h commands
      else
        (let results = fuse (h ! commands) query in
         case alloc h (map item results) of
           (h1, matched) \<Rightarrow> sortCommands_heap h1 matched))"

subsection \<open>The order as the specification words it\<close>

text \<open>
  \<open>chain_before a b\<close>: \<open>a\<close> comes strictly before \<open>b\<close> in the chain: a favorite before a
  non-favorite; with equal favorite status, the higher usage count first; with both
  equal, the smaller id first.
\<close>

definition chain_before :: "command \<Rightarrow> command \<Rightarrow> bool" where
  "chain_before a b =
     ((favorite a \<and> \<not> favorite b) \<or>
      (favorite a = favorite b \<and> usageCount b < usageCount a) \<or>
      (favorite a = favorite b \<and> usageCount a = usageCount b \<and> cmd_id a < cmd_id b))"

definition sort_key_of :: "command \<Rightarrow> bool \<times> int \<times> string" where
  "sort_key_of c = (\<not> favorite c, - usageCount c, cmd_id c)"

subsection \<open>The comparator is the chain; the sort is the stable sort by its key\<close>

lemma localeCompare_less: "(localeCompare x y < 0) = (x < y)"
  by (induction x y rule: localeCompare.induct) (auto simp: less_char_def)

lemma localeCompare_eq: "(localeCompare x y = 0) = (x = y)"
  by (induction x y rule: localeCompare.induct) (auto simp: of_char_eq_iff)

lemma localeCompare_le: "(localeCompare x y \<le> 0) = (x \<le> y)"
  using localeCompare_less [of x y] localeCompare_eq [of x y] by (auto simp: le_less)

lemma compare_less: "(compareCommands a b < 0) = chain_before a b"
  by (auto simp: compareCommands_def chain_before_def localeCompare_less)

lemma chain_before_key: "chain_before a b = (sort_key_of a < sort_key_of b)"
  by (auto simp: chain_before_def sort_key_of_def less_prod_def)

lemma compare_le_key: "(compareCommands a b \<le> 0) = (sort_key_of a \<le> sort_key_of b)"
  by (auto simp: compareCommands_def sort_key_of_def less_eq_prod_def localeCompare_le)

lemma insert_sorted_insort:
  "insert_sorted compareCommands x ys = insort_key sort_key_of x ys"
  by (induction ys) (simp_all add: compare_le_key)

lemma sortCommands_sort_key: "sortCommands cs = sort_key sort_key_of cs"
  by (induction cs) (simp_all add: sortCommands_def array_sort_def sort_key_def insert_sorted_insort)

lemma sortCommands_sorted: "sorted_wrt (\<lambda>a b. \<not> chain_before b a) (sortCommands cs)"
proof -
  have "sorted (map sort_key_of (sortCommands cs))"
    by (simp add: sortCommands_sort_key)
  then show ?thesis
    by (simp add: sorted_map chain_before_key not_less)
qed

lemma sortCommands_mset: "mset (sortCommands cs) = mset cs"
  by (simp add: sortCommands_sort_key)

lemma sortCommands_idem: "sortCommands (sortCommands cs) = sortCommands cs"
  by (simp add: sortCommands_sort_key sort_key_id_if_sorted)

lemma sortCommands_stable:
  "filter (\<lambda>c. sort_key_of c = k) (sortCommands cs) = filter (\<lambda>c. sort_key_of c = k) cs"
  by (simp add: sortCommands_sort_key sort_key_stable)

lemma key_differs:
  "((favorite a, usageCount a, cmd_id a) \<noteq> (favorite b, usageCount b, cmd_id b)) =
   (sort_key_of a \<noteq> sort_key_of b)"
  by (auto simp: sort_key_of_def)

lemma sortCommands_heap_frame:
  "a < length h \<Longrightarrow> sortCommands_heap h a = (h @ [sortCommands (h ! a)], length h)"
  by (simp add: sortCommands_heap_def alloc_def sortCommands_def nth_append)

lemma sortCommands_heap_fresh:
  "sortCommands_heap (h @ [xs]) (length h) = (h @ [xs, sortCommands xs], Suc (length h))"
  by (simp add: sortCommands_heap_def alloc_def sortCommands_def nth_append list_update_append)

lemma same_key_filter:
  assumes "inj_on f (set xs)" "k \<in> set xs"
  shows "filter (\<lambda>x. f k = f x) xs = replicate (count (mset xs) k) k"
proof -
  have "filter (\<lambda>x. f k = f x) xs = filter (\<lambda>x. k = x) xs"
    using assms by (intro filter_cong) (auto dest: inj_onD)
  then show ?thesis by (simp add: replicate_count_mset_eq_filter_eq)
qed

lemma sort_key_mset_unique:
  assumes "inj_on f (set xs)" "mset xs = mset ys"
  shows "sort_key f xs = sort_key f ys"
proof (rule properties_for_sort_key)
  show "mset (sort_key f ys) = mset xs" using assms(2) by simp
  show "sorted (map f (sort_key f ys))" by simp
  fix k assume "k \<in> set (sort_key f ys)"
  then have kx: "k \<in> set xs" and ky: "k \<in> set ys"
    using assms(2) by (auto dest: mset_eq_setD)
  from assms have iy: "inj_on f (set ys)" by (auto dest: mset_eq_setD)
  have "filter (\<lambda>x. f k = f x) (sort_key f ys) = filter (\<lambda>x. f k = f x) ys"
    using sort_key_stable [of f "f k" ys] by (simp add: eq_commute)
  also have "\<dots> = replicate (count (mset ys) k) k" by (rule same_key_filter [OF iy ky])
  also have "\<dots> = filter (\<lambda>x. f k = f x) xs"
    using same_key_filter [OF assms(1) kx] assms(2) by simp
  finally show "filter (\<lambda>x. f k = f x) (sort_key f ys) = filter (\<lambda>x. f k = f x) xs" .
qed

lemma sortCommands_order_free:
  assumes "distinct (map cmd_id cs)" "set xs \<subseteq> set cs" "mset xs = mset ys"
  shows "sortCommands xs = sortCommands ys"
proof -
  from assms(1) have "inj_on cmd_id (set cs)" by (simp add: distinct_map)
  then have "inj_on sort_key_of (set cs)"
    by (auto simp: inj_on_def sort_key_of_def)
  with assms(2) have "inj_on sort_key_of (set xs)" by (metis inj_on_subset)
  from sort_key_mset_unique [OF this assms(3)] show ?thesis
    by (simp add: sortCommands_sort_key)
qed


subsection \<open>Examples of commands and of a search\<close>

text \<open>A command with the given id, favorite flag and usage count, the other fields blank.\<close>

definition mk_command :: "string \<Rightarrow> bool \<Rightarrow> int \<Rightarrow> command" where
  "mk_command i f u =
     \<lparr>cmd_id = i, command_line = [], description = None, favorite = f,
      createdAt = 0, updatedAt = 0, usageCount = u, lastUsed = None\<rparr>"

text \<open>
  A stand-in for the Fuse search in the examples: the commands whose id starts with the
  query, the last one first.
\<close>

definition id_prefix_fuse :: "command list \<Rightarrow> string \<Rightarrow> unit fuse_result list" where
  "id_prefix_fuse cs q =
     map (\<lambda>c. \<lparr>item = c, refIndex = 0, score = ()\<rparr>)
       (rev (filter (\<lambda>c. take (length q) (cmd_id c) = q) cs))"



section \<open>Claims\<close>

subsection \<open>Parsing\<close>



subsection \<open>Substitution\<close>

text \<open>
  Claim C1. The claim is that every match is replaced by the provided non-empty value,
  else by its declared default, else by its own text. The code decides with
  \<^verbatim>\<open>name in values\<close> and \<^verbatim>\<open>values[name]\<close>, which also see what the values object
  inherits from \<^verbatim>\<open>Object.prototype\<close>. For the template \<^verbatim>\<open>echo {__proto__}\<close> and the empty
  values object, where no value is provided and no default declared, the code inserts
  \<^verbatim>\<open>[object Object]\<close>, where the claim keeps the matched text; for \<^verbatim>\<open>{toString:dflt}\<close>
  it inserts the text of the built-in function, where the claim inserts the default.
\<close>

theorem substitute_reads_inherited:
  "substitutePlaceholders native_text 0 ''echo {__proto__}'' Map.empty =
     (''echo [object Object]'', 0)
   \<and> unescape_braces
        (concat (map (render (slot_text Map.empty)) (template_pieces ''echo {__proto__}'' 0))) =
       ''echo {__proto__}''
   \<and> fst (substitutePlaceholders native_text 0 ''{toString:dflt}'' Map.empty) =
       unescape_braces (native_text ''toString'')
   \<and> unescape_braces
        (concat (map (render (slot_text Map.empty)) (template_pieces ''{toString:dflt}'' 0))) =
       ''dflt''"
proof (intro conjI)
  have p1: "template_pieces ''echo {__proto__}'' 0 =
      [Inl CHR ''e'', Inl CHR ''c'', Inl CHR ''h'', Inl CHR ''o'', Inl CHR '' '',
       Inr (''{__proto__}'', ''__proto__'', None)]"
    by code_simp
  have p2: "template_pieces ''{toString:dflt}'' 0 =
      [Inr (''{toString:dflt}'', ''toString'', Some ''dflt'')]"
    by code_simp
  have r1: "replacer native_text Map.empty (''{__proto__}'', ''__proto__'', None) =
      ''[object Object]''"
    by (simp add: has_property_def get_property_def inherited_def)
  have r2: "replacer native_text Map.empty (''{toString:dflt}'', ''toString'', Some ''dflt'') =
      native_text ''toString''"
    by (simp add: has_property_def get_property_def inherited_def prototype_functions_def)
  have u: "unescape_braces ''echo [object Object]'' = ''echo [object Object]''"
    by code_simp
  have c1: "concat (map (render (replacer native_text Map.empty))
        (template_pieces ''echo {__proto__}'' 0)) = ''echo [object Object]''"
    by (simp only: p1 list.map render.simps r1 concat.simps append.simps)
  show "substitutePlaceholders native_text 0 ''echo {__proto__}'' Map.empty =
     (''echo [object Object]'', 0)"
    by (simp only: substitutePlaceholders_pieces c1 u)
  show "unescape_braces
        (concat (map (render (slot_text Map.empty)) (template_pieces ''echo {__proto__}'' 0))) =
       ''echo {__proto__}''"
    by code_simp
  have c2: "concat (map (render (replacer native_text Map.empty))
        (template_pieces ''{toString:dflt}'' 0)) = native_text ''toString''"
    by (simp only: p2 list.map render.simps r2 concat.simps append_Nil2)
  show "fst (substitutePlaceholders native_text 0 ''{toString:dflt}'' Map.empty) =
       unescape_braces (native_text ''toString'')"
    by (simp only: substitutePlaceholders_pieces c2 fst_conv)
  show "unescape_braces
        (concat (map (render (slot_text Map.empty)) (template_pieces ''{toString:dflt}'' 0))) =
       ''dflt''"
    by code_simp
qed

text \<open>
  Claim C8. For every template without an opening or a closing brace, whatever the
  scanning position on entry and whatever the values, \<^verbatim>\<open>parsePlaceholders\<close> returns the
  empty list and \<^verbatim>\<open>substitutePlaceholders\<close> returns the template unchanged.
\<close>

theorem no_braces_unchanged:
  "lbrace \<notin> set t \<Longrightarrow> rbrace \<notin> set t \<Longrightarrow>
   fst (parsePlaceholders k t) = [] \<and> fst (substitutePlaceholders native_text k t vals) = t"
  by (simp add: parsePlaceholders_no_lbrace substitutePlaceholders_pieces no_lbrace_pieces
        unescape_braces_free no_braces_free)

theorem no_braces_unchanged_witness:
  "fst (parsePlaceholders 4 ''ls -la /tmp'') = [] \<and>
   fst (substitutePlaceholders id 4 ''ls -la /tmp'' [''a'' \<mapsto> ''x'']) = ''ls -la /tmp''"
proof -
  have "lbrace \<notin> set ''ls -la /tmp''" "rbrace \<notin> set ''ls -la /tmp''"
    by (simp_all add: lbrace_def rbrace_def)
  from no_braces_unchanged [OF this] show ?thesis .
qed

text \<open>
  Claim C10. Substitution is one pass over the original template, and the unescape pass
  runs over the substituted text. The result is the unescape pass applied to the texts of
  the pieces of the original template, one after the other: a character of the template
  for itself, a match for the text the replacement function gives for it, which is the
  provided value, else the default, else the matched text whenever the name is an own
  property or is not inherited. The pieces spell the template and their matches are the
  matches of the grammar in it, so a text that was inserted is never scanned for
  placeholders. A backslash-brace pair inside the text inserted for a match comes out as
  the bare brace, since the unescape pass rewrites every such pair of its input and
  nothing else.
\<close>

theorem substitution_single_pass:
  "fst (substitutePlaceholders native_text k t vals) =
     unescape_braces (concat (map (render (replacer native_text vals)) (template_pieces t 0)))
   \<and> concat (map (render fst) (template_pieces t 0)) = t
   \<and> slots_of_pieces (template_pieces t 0) = map fst (grammar_matches t 0)
   \<and> (vals nm \<noteq> None \<or> inherited nm = None \<longrightarrow>
        replacer native_text vals (tx, nm, d) = slot_text vals (tx, nm, d))
   \<and> (\<forall>m\<in>set (grammar_matches t 0). \<forall>x b y.
         replacer native_text vals (fst m) = x @ backslash # b # y \<and> (b = lbrace \<or> b = rbrace) \<longrightarrow>
         (\<exists>a c. fst (substitutePlaceholders native_text k t vals) =
                  unescape_braces (a @ x) @ b # unescape_braces (y @ c)))
   \<and> (b = lbrace \<or> b = rbrace \<longrightarrow>
        unescape_braces (xs @ backslash # b # ys) = unescape_braces xs @ b # unescape_braces ys)
   \<and> (escaped_brace_free xs \<longrightarrow> unescape_braces xs = xs)"
proof (intro conjI)
  show "fst (substitutePlaceholders native_text k t vals) =
     unescape_braces (concat (map (render (replacer native_text vals)) (template_pieces t 0)))"
    by (simp add: substitutePlaceholders_pieces)
  show "concat (map (render fst) (template_pieces t 0)) = t"
    by (simp add: pieces_spell_template)
  show "slots_of_pieces (template_pieces t 0) = map fst (grammar_matches t 0)"
    by (rule pieces_slots_matches)
  show "vals nm \<noteq> None \<or> inherited nm = None \<longrightarrow>
        replacer native_text vals (tx, nm, d) = slot_text vals (tx, nm, d)"
    using replacer_own_or_plain [of vals nm native_text tx d] by blast
  show "\<forall>m\<in>set (grammar_matches t 0). \<forall>x b y.
         replacer native_text vals (fst m) = x @ backslash # b # y \<and> (b = lbrace \<or> b = rbrace) \<longrightarrow>
         (\<exists>a c. fst (substitutePlaceholders native_text k t vals) =
                  unescape_braces (a @ x) @ b # unescape_braces (y @ c))"
  proof (intro ballI allI impI)
    fix m x b y
    assume m: "m \<in> set (grammar_matches t 0)"
      and s: "replacer native_text vals (fst m) = x @ backslash # b # y \<and> (b = lbrace \<or> b = rbrace)"
    from pieces_contain [OF m, of "replacer native_text vals"] obtain a c where
      "concat (map (render (replacer native_text vals)) (template_pieces t 0)) =
         a @ replacer native_text vals (fst m) @ c" by blast
    with s have "concat (map (render (replacer native_text vals)) (template_pieces t 0)) =
        (a @ x) @ backslash # b # (y @ c)" by simp
    with s have "unescape_braces
          (concat (map (render (replacer native_text vals)) (template_pieces t 0))) =
        unescape_braces (a @ x) @ b # unescape_braces (y @ c)"
      by (simp only: unescape_braces_occurrence)
    then show "\<exists>a c. fst (substitutePlaceholders native_text k t vals) =
                  unescape_braces (a @ x) @ b # unescape_braces (y @ c)"
      by (auto simp: substitutePlaceholders_pieces)
  qed
  show "b = lbrace \<or> b = rbrace \<longrightarrow>
        unescape_braces (xs @ backslash # b # ys) = unescape_braces xs @ b # unescape_braces ys"
    using unescape_braces_occurrence [of b xs ys] by blast
  show "escaped_brace_free xs \<longrightarrow> unescape_braces xs = xs"
    using unescape_braces_free [of xs] by blast
qed

theorem substitution_single_pass_witness:
  "fst (substitutePlaceholders id 0 ''{a} {b}'' [''a'' \<mapsto> ''{b}'', ''b'' \<mapsto> ''X'']) = ''{b} X''
   \<and> fst (substitutePlaceholders id 3 ''{a:d} {c}''
          [''a'' \<mapsto> backslash # ''{b'' @ backslash # ''}'', ''b'' \<mapsto> ''X'']) = ''{b} {c}''"
proof -
  have e1: "unescape_braces (concat (map (render (replacer id [''a'' \<mapsto> ''{b}'', ''b'' \<mapsto> ''X'']))
          (template_pieces ''{a} {b}'' 0))) = ''{b} X''"
    by code_simp
  have e2: "unescape_braces (concat (map
          (render (replacer id [''a'' \<mapsto> backslash # ''{b'' @ backslash # ''}'', ''b'' \<mapsto> ''X'']))
          (template_pieces ''{a:d} {c}'' 0))) = ''{b} {c}''"
    by code_simp
  from substitution_single_pass
         [of id 0 "''{a} {b}''" "[''a'' \<mapsto> ''{b}'', ''b'' \<mapsto> ''X'']", THEN conjunct1] e1
  have a: "fst (substitutePlaceholders id 0 ''{a} {b}'' [''a'' \<mapsto> ''{b}'', ''b'' \<mapsto> ''X'']) =
      ''{b} X''"
    by simp
  from substitution_single_pass
         [of id 3 "''{a:d} {c}''"
             "[''a'' \<mapsto> backslash # ''{b'' @ backslash # ''}'', ''b'' \<mapsto> ''X'']",
          THEN conjunct1] e2
  have b: "fst (substitutePlaceholders id 3 ''{a:d} {c}''
          [''a'' \<mapsto> backslash # ''{b'' @ backslash # ''}'', ''b'' \<mapsto> ''X'']) = ''{b} {c}''"
    by simp
  from a b show ?thesis by blast
qed

subsection \<open>Positional arguments\<close>

text \<open>
  Claim C7. The claim is that \<^verbatim>\<open>mapArgsToPlaceholders\<close> seeds every placeholder name and
  then stores \<^verbatim>\<open>args[i]\<close> under the name of \<^verbatim>\<open>placeholders[i]\<close>. For the slot
  \<^verbatim>\<open>__proto__\<close>, which \<^verbatim>\<open>parsePlaceholders\<close> returns for the template \<^verbatim>\<open>{__proto__} {x}\<close>,
  both assignments run the setter inherited from \<^verbatim>\<open>Object.prototype\<close>, which drops a
  string: the returned object has no key \<^verbatim>\<open>__proto__\<close>, and reading that name gives
  \<^verbatim>\<open>Object.prototype\<close>, not the argument. The slot \<open>x\<close> is bound as claimed.
\<close>

theorem mapArgs_proto_not_stored:
  "fst (parsePlaceholders 0 ''{__proto__} {x}'') =
     [\<lparr>name = ''__proto__'', defaultValue = None, required = True, match = ''{__proto__}''\<rparr>,
      \<lparr>name = ''x'', defaultValue = None, required = True, match = ''{x}''\<rparr>]
   \<and> mapArgsToPlaceholders (fst (parsePlaceholders 0 ''{__proto__} {x}'')) [''v'', ''w'']
        ''__proto__'' = None
   \<and> mapArgsToPlaceholders (fst (parsePlaceholders 0 ''{__proto__} {x}'')) [''v'', ''w'']
        ''x'' = Some ''w''
   \<and> get_property
        (mapArgsToPlaceholders (fst (parsePlaceholders 0 ''{__proto__} {x}'')) [''v'', ''w''])
        ''__proto__'' = Some JObjectPrototype"
  by code_simp

subsection \<open>Validation\<close>

lemma validate_loop_filter:
  "validate_loop phs vals acc =
     acc @ map name (filter (\<lambda>p. required p \<and>
        (get_property vals (name p) = None \<or> get_property vals (name p) = Some (JString []))) phs)"
  by (induction phs arbitrary: acc) (simp_all add: Let_def)

lemma missing_test_own_or_plain:
  "vals n \<noteq> None \<or> inherited n = None \<Longrightarrow>
   (get_property vals n = None \<or> get_property vals n = Some (JString [])) =
   (vals n = None \<or> vals n = Some [])"
  by (cases "vals n") (auto simp: get_property_def)

lemma validate_own_or_plain:
  assumes "\<forall>p\<in>set phs. vals (name p) \<noteq> None \<or> inherited (name p) = None"
  shows "missing (validatePlaceholderValues phs vals) =
     map name (filter (\<lambda>p. required p \<and> (vals (name p) = None \<or> vals (name p) = Some [])) phs)"
proof -
  have "filter (\<lambda>p. required p \<and>
        (get_property vals (name p) = None \<or> get_property vals (name p) = Some (JString []))) phs =
      filter (\<lambda>p. required p \<and> (vals (name p) = None \<or> vals (name p) = Some [])) phs"
    using assms by (intro filter_cong) (auto simp: missing_test_own_or_plain)
  then show ?thesis
    by (simp add: validatePlaceholderValues_def Let_def validate_loop_filter)
qed

text \<open>
  Claim C6. The claim is that \<^verbatim>\<open>missing\<close> lists the required placeholders whose value in
  the mapping is absent or empty. The code reads \<^verbatim>\<open>values[ph.name]\<close>, which for a name
  that the values object inherits from \<^verbatim>\<open>Object.prototype\<close> is never \<^verbatim>\<open>undefined\<close>: with
  the empty values object, the required slots \<^verbatim>\<open>toString\<close> and \<open>x\<close> give \<^verbatim>\<open>missing\<close> \<open>x\<close>
  alone, where the claim lists both; and for the template \<^verbatim>\<open>{__proto__}\<close> with no
  argument the values that \<^verbatim>\<open>mapArgsToPlaceholders\<close> returns are judged valid.
\<close>

theorem validate_reads_inherited:
  "validatePlaceholderValues
     [\<lparr>name = ''toString'', defaultValue = None, required = True, match = ''{toString}''\<rparr>,
      \<lparr>name = ''x'', defaultValue = None, required = True, match = ''{x}''\<rparr>]
     Map.empty = \<lparr>valid = False, missing = [''x'']\<rparr>
   \<and> validatePlaceholderValues (fst (parsePlaceholders 0 ''{__proto__}''))
       (mapArgsToPlaceholders (fst (parsePlaceholders 0 ''{__proto__}'')) []) =
       \<lparr>valid = True, missing = []\<rparr>"
  by code_simp

subsection \<open>The scanning position across calls\<close>

text \<open>
  Claim C3. \<^verbatim>\<open>hasPlaceholders\<close> is claimed to leave no scanning position behind, so
  that in any sequence of calls each call answers as it would first on a fresh engine.
  The code resets \<^verbatim>\<open>lastIndex\<close> before \<^verbatim>\<open>test\<close>, but a successful \<^verbatim>\<open>test\<close> leaves
  it at the end of the first match, and \<^verbatim>\<open>parsePlaceholders\<close> starts from it: after
  \<^verbatim>\<open>hasPlaceholders("{a} {b}")\<close> the call \<^verbatim>\<open>parsePlaceholders("{a} {b}")\<close> starts at
  index 3 and returns the slot \<open>b\<close> alone, where a fresh engine returns \<open>a\<close> and \<open>b\<close>.
\<close>

theorem hasPlaceholders_stale_lastIndex:
  "run_calls 0 [HasPlaceholders ''{a} {b}'', ParsePlaceholders ''{a} {b}''] =
     [Flag True,
      Slots [\<lparr>name = ''b'', defaultValue = None, required = True, match = ''{b}''\<rparr>]]
   \<and> map fresh_answer [HasPlaceholders ''{a} {b}'', ParsePlaceholders ''{a} {b}''] =
     [Flag True,
      Slots [\<lparr>name = ''a'', defaultValue = None, required = True, match = ''{a}''\<rparr>,
             \<lparr>name = ''b'', defaultValue = None, required = True, match = ''{b}''\<rparr>]]
   \<and> snd (hasPlaceholders 0 ''{a} {b}'') = 3"
  by code_simp

subsection \<open>Sorting\<close>

text \<open>
  Claim C5. \<^verbatim>\<open>sortCommands\<close> returns the records it was given, arranged so that no
  record comes after one that the chain puts strictly behind it, where the chain is:
  favorite before non-favorite; with equal favorite status, higher usage count first;
  with both equal, smaller id first. The comparator of the code is negative exactly when
  the chain puts its first argument first, and the chain is a strict total order on
  records whose triples of favorite, usage count and id differ: irreflexive, transitive,
  and exactly one of two such records is before the other. Sorting twice is sorting once.
\<close>

theorem sortCommands_chain:
  "mset (sortCommands cs) = mset cs
   \<and> sorted_wrt (\<lambda>a b. \<not> chain_before b a) (sortCommands cs)
   \<and> (compareCommands a b < 0) = chain_before a b
   \<and> \<not> chain_before a a
   \<and> (chain_before a b \<and> chain_before b c \<longrightarrow> chain_before a c)
   \<and> ((favorite a, usageCount a, cmd_id a) \<noteq> (favorite b, usageCount b, cmd_id b) \<longrightarrow>
         chain_before a b \<noteq> chain_before b a)
   \<and> sortCommands (sortCommands cs) = sortCommands cs"
proof (intro conjI)
  show "mset (sortCommands cs) = mset cs" by (rule sortCommands_mset)
  show "sorted_wrt (\<lambda>a b. \<not> chain_before b a) (sortCommands cs)" by (rule sortCommands_sorted)
  show "(compareCommands a b < 0) = chain_before a b" by (rule compare_less)
  show "\<not> chain_before a a" by (simp add: chain_before_key)
  show "chain_before a b \<and> chain_before b c \<longrightarrow> chain_before a c"
    by (auto simp: chain_before_key)
  show "(favorite a, usageCount a, cmd_id a) \<noteq> (favorite b, usageCount b, cmd_id b) \<longrightarrow>
         chain_before a b \<noteq> chain_before b a"
    unfolding key_differs chain_before_key by auto
  show "sortCommands (sortCommands cs) = sortCommands cs" by (rule sortCommands_idem)
qed

theorem sortCommands_chain_witness:
  "sortCommands [mk_command ''a'' False 10, mk_command ''c'' True 1, mk_command ''b'' True 1,
                 mk_command ''d'' True 5] =
     [mk_command ''d'' True 5, mk_command ''b'' True 1, mk_command ''c'' True 1,
      mk_command ''a'' False 10]
   \<and> chain_before (mk_command ''b'' True 1) (mk_command ''a'' False 10)
   \<and> mset (sortCommands [mk_command ''a'' False 10, mk_command ''c'' True 1,
                           mk_command ''b'' True 1, mk_command ''d'' True 5]) =
       mset [mk_command ''a'' False 10, mk_command ''c'' True 1, mk_command ''b'' True 1,
             mk_command ''d'' True 5]"
proof -
  have e: "sortCommands [mk_command ''a'' False 10, mk_command ''c'' True 1,
                 mk_command ''b'' True 1, mk_command ''d'' True 5] =
     [mk_command ''d'' True 5, mk_command ''b'' True 1, mk_command ''c'' True 1,
      mk_command ''a'' False 10]"
    by code_simp
  have c: "compareCommands (mk_command ''b'' True 1) (mk_command ''a'' False 10) < 0"
    by code_simp
  note th = sortCommands_chain
    [of "[mk_command ''a'' False 10, mk_command ''c'' True 1, mk_command ''b'' True 1,
          mk_command ''d'' True 5]"
        "mk_command ''b'' True 1" "mk_command ''a'' False 10"]
  from th c have "chain_before (mk_command ''b'' True 1) (mk_command ''a'' False 10)"
    by blast
  moreover from th have "mset (sortCommands [mk_command ''a'' False 10, mk_command ''c'' True 1,
                           mk_command ''b'' True 1, mk_command ''d'' True 5]) =
       mset [mk_command ''a'' False 10, mk_command ''c'' True 1, mk_command ''b'' True 1,
             mk_command ''d'' True 5]"
    by blast
  ultimately show ?thesis using e by blast
qed

subsection \<open>Searching\<close>

text \<open>
  Claim C4. With a query that is empty after trimming, \<^verbatim>\<open>searchCommands\<close> returns
  \<^verbatim>\<open>sortCommands\<close> of the whole collection. Otherwise it returns \<^verbatim>\<open>sortCommands\<close> of the
  items Fuse matched, so on an empty collection, where Fuse has nothing to return, the
  result is empty. The result is in chain order, and it does not depend on the order or
  the scores of the Fuse results: when ids are unique in the collection, two searches
  that match the same items of it return the same list.
\<close>

theorem searchCommands_sorted_matches:
  "(trim q = [] \<longrightarrow> searchCommands fuse cs q = sortCommands cs)
   \<and> (trim q \<noteq> [] \<longrightarrow> searchCommands fuse cs q = sortCommands (map item (fuse cs q)))
   \<and> ((\<forall>r\<in>set (fuse cs q). item r \<in> set cs) \<and> cs = [] \<longrightarrow> searchCommands fuse cs q = [])
   \<and> sorted_wrt (\<lambda>a b. \<not> chain_before b a) (searchCommands fuse cs q)
   \<and> (distinct (map cmd_id cs) \<and> set (map item (fuse cs q)) \<subseteq> set cs \<and>
        mset (map item (fuse cs q)) = mset (map item (fuse' cs q)) \<longrightarrow>
        searchCommands fuse cs q = searchCommands fuse' cs q)"
proof (intro conjI impI)
  assume "trim q = []"
  then show "searchCommands fuse cs q = sortCommands cs"
    by (simp add: searchCommands_def)
next
  assume "trim q \<noteq> []"
  then show "searchCommands fuse cs q = sortCommands (map item (fuse cs q))"
    by (simp add: searchCommands_def Let_def)
next
  assume "(\<forall>r\<in>set (fuse cs q). item r \<in> set cs) \<and> cs = []"
  then have "cs = []" and "fuse cs q = []" by auto
  then show "searchCommands fuse cs q = []"
    by (simp add: searchCommands_def Let_def sortCommands_def array_sort_def)
next
  show "sorted_wrt (\<lambda>a b. \<not> chain_before b a) (searchCommands fuse cs q)"
    by (simp add: searchCommands_def Let_def sortCommands_sorted)
next
  assume a: "distinct (map cmd_id cs) \<and> set (map item (fuse cs q)) \<subseteq> set cs \<and>
        mset (map item (fuse cs q)) = mset (map item (fuse' cs q))"
  then have "sortCommands (map item (fuse cs q)) = sortCommands (map item (fuse' cs q))"
    by (intro sortCommands_order_free [of cs]) simp_all
  then show "searchCommands fuse cs q = searchCommands fuse' cs q"
    by (simp add: searchCommands_def Let_def)
qed

theorem searchCommands_sorted_matches_witness:
  "searchCommands id_prefix_fuse
     [mk_command ''a'' False 10, mk_command ''bc'' True 1, mk_command ''bb'' True 1,
      mk_command ''d'' True 5] ''  '' =
     [mk_command ''d'' True 5, mk_command ''bb'' True 1, mk_command ''bc'' True 1,
      mk_command ''a'' False 10]
   \<and> searchCommands id_prefix_fuse
     [mk_command ''a'' False 10, mk_command ''bc'' True 1, mk_command ''bb'' True 1,
      mk_command ''d'' True 5] ''b'' =
     [mk_command ''bb'' True 1, mk_command ''bc'' True 1]
   \<and> searchCommands id_prefix_fuse [] ''b'' = []"
proof -
  let ?cs = "[mk_command ''a'' False 10, mk_command ''bc'' True 1, mk_command ''bb'' True 1,
      mk_command ''d'' True 5]"
  have t1: "trim ''  '' = []" by code_simp
  have t2: "trim ''b'' \<noteq> []" by code_simp
  have s1: "sortCommands ?cs =
     [mk_command ''d'' True 5, mk_command ''bb'' True 1, mk_command ''bc'' True 1,
      mk_command ''a'' False 10]"
    by code_simp
  have s2: "sortCommands (map item (id_prefix_fuse ?cs ''b'')) =
     [mk_command ''bb'' True 1, mk_command ''bc'' True 1]"
    by code_simp
  have e: "\<forall>r\<in>set (id_prefix_fuse [] ''b''). item r \<in> set []"
    by (simp add: id_prefix_fuse_def)
  from searchCommands_sorted_matches
         [of "''  ''" id_prefix_fuse ?cs, THEN conjunct1, rule_format, OF t1] s1
  have a: "searchCommands id_prefix_fuse ?cs ''  '' =
     [mk_command ''d'' True 5, mk_command ''bb'' True 1, mk_command ''bc'' True 1,
      mk_command ''a'' False 10]"
    by simp
  from searchCommands_sorted_matches
         [of "''b''" id_prefix_fuse ?cs, THEN conjunct2, THEN conjunct1, rule_format, OF t2] s2
  have b: "searchCommands id_prefix_fuse ?cs ''b'' =
     [mk_command ''bb'' True 1, mk_command ''bc'' True 1]"
    by simp
  from searchCommands_sorted_matches
         [of "''b''" id_prefix_fuse "[]", THEN conjunct2, THEN conjunct2, THEN conjunct1] e
  have c: "searchCommands id_prefix_fuse [] ''b'' = []"
    by blast
  from a b c show ?thesis by blast
qed

subsection \<open>The input array\<close>

text \<open>
  Claim C9. \<^verbatim>\<open>sortCommands\<close> and \<^verbatim>\<open>searchCommands\<close>, called on an array of the store,
  leave every array that was there, the input among them, with its elements and their
  order; the array they return is a new one, and it holds the sorted elements.
\<close>

theorem input_array_unchanged:
  "(commands < length h \<longrightarrow>
      (case sortCommands_heap h commands of
         (h', r) \<Rightarrow> take (length h) h' = h \<and> h' ! commands = h ! commands \<and> r \<noteq> commands \<and>
                    h' ! r = sortCommands (h ! commands)))
   \<and> (commands < length h \<longrightarrow>
      (case searchCommands_heap fuse h commands q of
         (h', r) \<Rightarrow> take (length h) h' = h \<and> h' ! commands = h ! commands \<and> r \<noteq> commands \<and>
                    h' ! r = searchCommands fuse (h ! commands) q))"
proof (intro conjI impI)
  assume c: "commands < length h"
  then show "case sortCommands_heap h commands of
         (h', r) \<Rightarrow> take (length h) h' = h \<and> h' ! commands = h ! commands \<and> r \<noteq> commands \<and>
                    h' ! r = sortCommands (h ! commands)"
    by (simp add: sortCommands_heap_frame nth_append)
next
  assume c: "commands < length h"
  show "case searchCommands_heap fuse h commands q of
         (h', r) \<Rightarrow> take (length h) h' = h \<and> h' ! commands = h ! commands \<and> r \<noteq> commands \<and>
                    h' ! r = searchCommands fuse (h ! commands) q"
  proof (cases "trim q = []")
    case True
    with c show ?thesis
      by (simp add: searchCommands_heap_def searchCommands_def sortCommands_heap_frame nth_append)
  next
    case False
    with c show ?thesis
      by (simp add: searchCommands_heap_def searchCommands_def Let_def alloc_def
            sortCommands_heap_fresh nth_append)
  qed
qed

theorem input_array_unchanged_witness:
  "sortCommands_heap [[mk_command ''a'' False 10, mk_command ''b'' True 1]] 0 =
     ([[mk_command ''a'' False 10, mk_command ''b'' True 1],
       [mk_command ''b'' True 1, mk_command ''a'' False 10]], 1)
   \<and> fst (searchCommands_heap id_prefix_fuse
            [[mk_command ''a'' False 10, mk_command ''b'' True 1]] 0 ''b'') ! 0 =
       [mk_command ''a'' False 10, mk_command ''b'' True 1]"
proof -
  let ?h = "[[mk_command ''a'' False 10, mk_command ''b'' True 1]]"
  have l: "0 < length ?h" by simp
  have e: "sortCommands_heap ?h 0 =
     ([[mk_command ''a'' False 10, mk_command ''b'' True 1],
       [mk_command ''b'' True 1, mk_command ''a'' False 10]], 1)"
    by code_simp
  note th = input_array_unchanged [of 0 ?h id_prefix_fuse "''b''"]
  from th [THEN conjunct2, rule_format, OF l]
  have "fst (searchCommands_heap id_prefix_fuse ?h 0 ''b'') ! 0 = ?h ! 0"
    by (simp add: case_prod_unfold)
  with e show ?thesis by simp
qed


end
